theory Spec2Isabelle
  imports Main
begin

section \<open>The mode manager of qutebrowser/keyinput/modes.py\<close>

text \<open>
  The class \<open>ModeManager\<close> is embedded as a record of its attributes and one function
  per method. A method mutates the object and may raise, so each function returns what
  the call gave back (\<open>Inl\<close> the exception raised, \<open>Inr\<close> the value returned), the
  signals it emitted, in order, and the object as the call left it.

  A mode is a Python string. An event object is a value of the type variable \<open>'e\<close>:
  equality on \<open>'e\<close> is what Python's \<open>in\<close> and \<open>!=\<close> compare on the objects kept in
  \<open>_releaseevents_to_pass\<close>. What \<open>evt.type()\<close> returns at a call of \<open>eventFilter\<close>
  is an argument of its own (\<open>typ\<close>), and \<open>isinstance(obj, QWindow)\<close> is the
  constructor of \<open>obj\<close>. The calls to \<open>logging.debug\<close> have no effect on the object and
  are left out.

  A handler is a callable of another module (\<open>app.py\<close> registers the \<open>handle\<close> methods
  of the key parsers). It runs inside \<open>eventFilter\<close> and executes the commands bound to
  keys, among them \<open>enter_mode\<close> and \<open>leave_mode\<close>, which are \<open>enter\<close> and
  \<open>leave_current_mode\<close> of this class. So a handler is modelled by what it does to
  the manager and what it gives back: for an event, the calls it makes on the manager's
  methods, in order, and the boolean it returns or the exception it raises. \<open>None\<close> is
  the handler of a mode registered without one.

  A signal is recorded as emitted. The slots that \<open>app.py\<close> connects to \<open>entered\<close> and
  \<open>left\<close> belong to the status bar and the tabs, and nothing in the sources connects
  \<open>key_pressed\<close>: slots make no call on the manager.
\<close>

datatype error = ValueError string | KeyError string

datatype event_type = KeyPress | KeyRelease | OtherEvent

datatype qobject = QWindow | OtherObject

datatype 'e signal = entered string | left string | key_pressed 'e

text \<open>
  A call on one of the manager's methods, made by the application or by a handler. The
  second argument of \<open>Register\<close> is the handler registered.
\<close>

datatype 'e call =
    Register string "('e \<Rightarrow> 'e call list \<times> (error + bool)) option" bool
  | Enter string
  | Leave string
  | Leave_current_mode
  | Maybe_leave string
  | On_config_changed string string bool

type_synonym 'e handler = "'e \<Rightarrow> 'e call list \<times> (error + bool)"

record 'e ModeManager =
  handlers :: "string \<Rightarrow> 'e handler option option"
  passthrough :: "string list"
  mode_stack :: "string list"
  releaseevents_to_pass :: "'e list"
  forward_unbound_keys :: bool

type_synonym ('e, 'a) returned = "(error + 'a) \<times> 'e signal list \<times> 'e ModeManager"

definition emitted :: "('e, 'a) returned \<Rightarrow> 'e signal list" where
  "emitted r = fst (snd r)"

definition after :: "('e, 'a) returned \<Rightarrow> 'e ModeManager" where
  "after r = snd (snd r)"

text \<open>\<open>__init__\<close>; \<open>cfg\<close> is what \<open>config.get('general', 'forward_unbound_keys')\<close> returns.\<close>

definition ModeManager_init :: "bool \<Rightarrow> 'e ModeManager" where
  "ModeManager_init cfg =
     \<lparr>handlers = Map.empty, passthrough = [], mode_stack = [],
      releaseevents_to_pass = [], forward_unbound_keys = cfg\<rparr>"

text \<open>The property \<open>mode\<close>: the last element of the stack, \<open>None\<close> when it is empty.\<close>

definition mode :: "'e ModeManager \<Rightarrow> string option" where
  "mode s = (if mode_stack s = [] then None else Some (last (mode_stack s)))"

definition register :: "'e ModeManager \<Rightarrow> string \<Rightarrow> 'e handler option \<Rightarrow> bool \<Rightarrow> 'e ModeManager" where
  "register s m handler pt =
     (let s1 = s\<lparr>handlers := (handlers s)(m \<mapsto> handler)\<rparr>
      in if pt then s1\<lparr>passthrough := passthrough s1 @ [m]\<rparr> else s1)"

definition enter :: "'e ModeManager \<Rightarrow> string \<Rightarrow> ('e, unit) returned" where
  "enter s m =
     (if handlers s m = None then (Inl (ValueError (''No handler for mode '' @ m)), [], s)
      else if mode_stack s \<noteq> [] \<and> last (mode_stack s) = m then (Inr (), [], s)
      else (Inr (), [entered m], s\<lparr>mode_stack := mode_stack s @ [m]\<rparr>))"

text \<open>\<open>list.remove\<close> raises when the value is absent and deletes its first occurrence otherwise.\<close>

definition leave :: "'e ModeManager \<Rightarrow> string \<Rightarrow> ('e, unit) returned" where
  "leave s m =
     (if m \<notin> set (mode_stack s)
      then (Inl (ValueError (''Mode '' @ m @ '' not on mode stack!'')), [], s)
      else (Inr (), [left m], s\<lparr>mode_stack := remove1 m (mode_stack s)\<rparr>))"

text \<open>
  With an empty stack \<open>self.mode\<close> is \<open>None\<close>, which is not \<open>"normal"\<close>, and
  \<open>self.leave(None)\<close> raises: \<open>None\<close> is not on a stack of strings.
\<close>

definition leave_current_mode :: "'e ModeManager \<Rightarrow> ('e, unit) returned" where
  "leave_current_mode s =
     (if mode s = Some ''normal'' then (Inl (ValueError ''Can't leave normal mode!''), [], s)
      else case mode s of
             None \<Rightarrow> (Inl (ValueError ''Mode None not on mode stack!''), [], s)
           | Some m \<Rightarrow> leave s m)"

text \<open>The module function \<open>maybe_leave\<close> swallows the \<open>ValueError\<close> of \<open>leave\<close>.\<close>

definition maybe_leave :: "'e ModeManager \<Rightarrow> string \<Rightarrow> ('e, unit) returned" where
  "maybe_leave s m =
     (case leave s m of
        (Inl (ValueError msg), sigs, s') \<Rightarrow> (Inr (), sigs, s')
      | r \<Rightarrow> r)"

text \<open>\<open>cfg\<close> is what \<open>config.get\<close> returns when the slot runs.\<close>

definition on_config_changed :: "'e ModeManager \<Rightarrow> string \<Rightarrow> string \<Rightarrow> bool \<Rightarrow> 'e ModeManager" where
  "on_config_changed s section option cfg =
     (if (section, option) = (''general'', ''forward_unbound_keys'')
      then s\<lparr>forward_unbound_keys := cfg\<rparr> else s)"

text \<open>
  One call on the manager: the signals it emits and the manager as it leaves it. Whether
  the caller catches an exception of the call is the caller's business; the manager is
  as the call left it either way.
\<close>

fun make_call :: "'e ModeManager \<Rightarrow> 'e call \<Rightarrow> 'e signal list \<times> 'e ModeManager" where
  "make_call s (Register m handler pt) = ([], register s m handler pt)"
| "make_call s (Enter m) = (emitted (enter s m), after (enter s m))"
| "make_call s (Leave m) = (emitted (leave s m), after (leave s m))"
| "make_call s Leave_current_mode = (emitted (leave_current_mode s), after (leave_current_mode s))"
| "make_call s (Maybe_leave m) = (emitted (maybe_leave s m), after (maybe_leave s m))"
| "make_call s (On_config_changed section option cfg) =
     ([], on_config_changed s section option cfg)"

fun make_calls :: "'e ModeManager \<Rightarrow> 'e call list \<Rightarrow> 'e signal list \<times> 'e ModeManager" where
  "make_calls s [] = ([], s)"
| "make_calls s (c # cs) =
     (case make_call s c of (sigs, s1) \<Rightarrow>
        (case make_calls s1 cs of (sigs', s2) \<Rightarrow> (sigs @ sigs', s2)))"

text \<open>
  Line 204, \<open>handled = handler(evt) if handler is not None else False\<close>: what the
  handler gives back, the signals of the calls it made, and the manager as they left it.
\<close>

definition run_handler :: "'e ModeManager \<Rightarrow> 'e handler option \<Rightarrow> 'e \<Rightarrow> ('e, bool) returned" where
  "run_handler s handler evt =
     (case handler of
        None \<Rightarrow> (Inr False, [], s)
      | Some h \<Rightarrow>
          (case make_calls s (fst (h evt)) of (sigs, s1) \<Rightarrow> (snd (h evt), sigs, s1)))"

text \<open>
  Line 208, \<open>self.mode in self.passthrough\<close>, read when the handler has returned;
  \<open>None\<close> is in no list of strings.
\<close>

definition mode_in_passthrough :: "'e ModeManager \<Rightarrow> bool" where
  "mode_in_passthrough s =
     (case mode s of None \<Rightarrow> False | Some m \<Rightarrow> m \<in> set (passthrough s))"

text \<open>
  \<open>eventFilter\<close> returns \<open>filter_this\<close>: \<open>True\<close> consumes the event, \<open>False\<close> forwards it.
  \<open>self._handlers[self.mode]\<close> raises \<open>KeyError\<close> for a mode that was never registered.
  The handler is looked up before \<open>key_pressed\<close> is emitted and the handler runs; the
  mode, the passthrough list and the setting are read after it has returned. An exception
  of the handler leaves \<open>eventFilter\<close> before anything is appended.
\<close>

definition eventFilter :: "'e ModeManager \<Rightarrow> qobject \<Rightarrow> event_type \<Rightarrow> 'e \<Rightarrow> ('e, bool) returned" where
  "eventFilter s obj typ evt =
     (case mode s of
        None \<Rightarrow> (Inr False, [], s)
      | Some m \<Rightarrow>
          (if typ \<noteq> KeyPress \<and> typ \<noteq> KeyRelease then (Inr False, [], s)
           else if obj \<noteq> QWindow then (Inr False, [], s)
           else (case handlers s m of
             None \<Rightarrow> (Inl (KeyError m), [], s)
           | Some handler \<Rightarrow>
               (if typ = KeyPress then
                  (case run_handler s handler evt of
                     (Inl e, sigs, s1) \<Rightarrow> (Inl e, key_pressed evt # sigs, s1)
                   | (Inr handled, sigs, s1) \<Rightarrow>
                       (let filter_this =
                              (if handled then True
                               else if mode_in_passthrough s1 \<or> forward_unbound_keys s1
                               then False
                               else True)
                        in (Inr filter_this, key_pressed evt # sigs,
                            if \<not> filter_this
                            then s1\<lparr>releaseevents_to_pass := releaseevents_to_pass s1 @ [evt]\<rparr>
                            else s1)))
                else if evt \<in> set (releaseevents_to_pass s) then
                  (Inr False, [],
                   s\<lparr>releaseevents_to_pass :=
                       filter (\<lambda>e. e \<noteq> evt) (releaseevents_to_pass s)\<rparr>)
                else (Inr True, [], s)))))"

text \<open>
  A handler runs at line 204 when a press from the window arrives while a mode is current
  and registered.
\<close>

definition handler_runs :: "'e ModeManager \<Rightarrow> qobject \<Rightarrow> event_type \<Rightarrow> bool" where
  "handler_runs s obj typ =
     (typ = KeyPress \<and> obj = QWindow
      \<and> (case mode s of None \<Rightarrow> False | Some m \<Rightarrow> handlers s m \<noteq> None))"

section \<open>Runs of the manager\<close>

text \<open>
  What the rest of the program does to a manager: a call on one of its methods, or an
  event delivered to \<open>eventFilter\<close>. An exception propagates to the caller and the
  manager stays as the call left it.
\<close>

datatype 'e op =
    Call "'e call"
  | EventFilter qobject event_type 'e

text \<open>
  The record of one call of \<open>eventFilter\<close> that returned: whether a mode was active when
  the event arrived, the arguments, and the value returned.
\<close>

record 'e dispatch =
  d_active :: bool
  d_obj :: qobject
  d_typ :: event_type
  d_evt :: 'e
  d_consume :: bool

text \<open>The log of dispatches is kept newest first.\<close>

fun apply_op :: "'e dispatch list \<times> 'e ModeManager \<Rightarrow> 'e op \<Rightarrow> 'e dispatch list \<times> 'e ModeManager" where
  "apply_op (log, s) (Call c) = (log, snd (make_call s c))"
| "apply_op (log, s) (EventFilter obj typ evt) =
     (case eventFilter s obj typ evt of
        (Inr c, sigs, s') \<Rightarrow>
          (\<lparr>d_active = (mode s \<noteq> None), d_obj = obj, d_typ = typ, d_evt = evt,
            d_consume = c\<rparr> # log, s')
      | (Inl e, sigs, s') \<Rightarrow> (log, s'))"

definition run :: "'e ModeManager \<Rightarrow> 'e op list \<Rightarrow> 'e dispatch list \<times> 'e ModeManager" where
  "run s ops = foldl apply_op ([], s) ops"

text \<open>The decisions of a run, oldest first: type, event, value returned.\<close>

definition decisions :: "'e dispatch list \<Rightarrow> (event_type \<times> 'e \<times> bool) list" where
  "decisions log = map (\<lambda>d. (d_typ d, d_evt d, d_consume d)) (rev log)"

text \<open>
  The invariant of the data model: every mode on the stack has an entry in the registry.
\<close>

definition stack_registered :: "'e ModeManager \<Rightarrow> bool" where
  "stack_registered s = list_all (\<lambda>m. handlers s m \<noteq> None) (mode_stack s)"

text \<open>
  The pairing of presses and releases, read off a log (newest first): looking back from
  now over the dispatches from the window, the latest one of \<open>evt\<close> that is a release or
  a forwarded press is a forwarded press. Consumed presses and other events are skipped.
\<close>

fun release_owed :: "'e \<Rightarrow> 'e dispatch list \<Rightarrow> bool" where
  "release_owed evt [] = False"
| "release_owed evt (d # older) =
     (if d_obj d = QWindow \<and> d_evt d = evt \<and> d_typ d = KeyRelease then False
      else if d_obj d = QWindow \<and> d_evt d = evt \<and> d_typ d = KeyPress \<and> \<not> d_consume d
      then True
      else release_owed evt older)"

subsection \<open>Handlers and runs used as examples\<close>

text \<open>Handlers that call nothing on the manager: one handles every key, one none.\<close>

definition handles_all :: "nat handler" where
  "handles_all evt = ([], Inr True)"

definition handles_none :: "nat handler" where
  "handles_none evt = ([], Inr False)"

text \<open>
  A handler whose binding runs \<open>leave_mode\<close> and which reports the key as not handled,
  and the handler of a key bound to \<open>enter_mode insert\<close>.
\<close>

definition leaves_mode :: "nat handler" where
  "leaves_mode evt = ([Leave_current_mode], Inr False)"

definition enters_insert :: "nat handler" where
  "enters_insert evt = ([Enter ''insert''], Inr True)"

text \<open>Two modes registered as the application does, \<open>insert\<close> with passthrough.\<close>

definition registered :: "bool \<Rightarrow> nat ModeManager" where
  "registered cfg =
     register (register (ModeManager_init cfg) ''normal'' (Some handles_all) False)
       ''insert'' (Some handles_none) True"

definition in_mode :: "string \<Rightarrow> bool \<Rightarrow> nat ModeManager" where
  "in_mode m cfg = after (enter (registered cfg) m)"

text \<open>A manager whose only mode, registered with passthrough, has handler \<open>h\<close> and is active.\<close>

definition passthrough_mode :: "nat handler \<Rightarrow> nat ModeManager" where
  "passthrough_mode h =
     after (enter (register (ModeManager_init False) ''insert'' (Some h) True) ''insert'')"

text \<open>
  \<open>normal\<close> with handler \<open>h\<close>, \<open>insert\<close> with passthrough and handler \<open>h'\<close>, both
  entered in this order, forward-unbound-keys off.
\<close>

definition in_insert :: "nat handler \<Rightarrow> nat handler \<Rightarrow> nat ModeManager" where
  "in_insert h h' =
     after (enter (after (enter
       (register (register (ModeManager_init False) ''normal'' (Some h) False)
          ''insert'' (Some h') True) ''normal'')) ''insert'')"

text \<open>\<open>normal\<close> with handler \<open>h\<close> is current; \<open>insert\<close> is registered with passthrough.\<close>

definition in_normal :: "nat handler \<Rightarrow> nat ModeManager" where
  "in_normal h =
     after (enter (register (register (ModeManager_init False) ''normal'' (Some h) False)
                     ''insert'' (Some handles_none) True) ''normal'')"

text \<open>A mode registered with passthrough, registered again without it, and entered.\<close>

definition registered_twice :: "nat ModeManager" where
  "registered_twice =
     after (enter (register (register (ModeManager_init False)
                     ''hint'' (Some handles_all) True)
                   ''hint'' (Some handles_none) False) ''hint'')"

text \<open>
  A key held down across two mode changes: its presses repeat, the first in \<open>normal\<close>,
  the second in \<open>insert\<close>, the third in \<open>normal\<close> again, then it is released.
\<close>

definition held_key_ops :: "nat op list" where
  "held_key_ops =
     [Call (Register ''normal'' (Some handles_all) False),
      Call (Register ''insert'' (Some handles_none) True),
      Call (Enter ''normal''),
      EventFilter QWindow KeyPress 7,
      Call (Enter ''insert''),
      EventFilter QWindow KeyPress 7,
      Call (Leave ''insert''),
      EventFilter QWindow KeyPress 7,
      EventFilter QWindow KeyRelease 7]"

text \<open>An unbound key pressed in \<open>normal\<close> mode.\<close>

definition unbound_press_ops :: "nat op list" where
  "unbound_press_ops =
     [Call (Register ''normal'' (Some handles_none) False),
      Call (Enter ''normal''),
      EventFilter QWindow KeyPress 7]"

section \<open>Properties\<close>

subsection \<open>What the calls of a handler can do\<close>

text \<open>
  A handler reaches the manager through its methods only. None of them touches the
  pending releases, the passthrough list only grows, and the invariant of the stack is
  kept.
\<close>

lemma stack_registered_iff:
  "stack_registered s \<longleftrightarrow> (\<forall>m \<in> set (mode_stack s). handlers s m \<noteq> None)"
  by (simp add: stack_registered_def list_all_iff)

lemma stack_registered_init: "stack_registered (ModeManager_init cfg)"
  by (simp add: stack_registered_def ModeManager_init_def)

lemma stack_registered_register:
  "stack_registered s \<Longrightarrow> stack_registered (register s m handler pt)"
  by (simp add: stack_registered_iff register_def Let_def)

lemma stack_registered_enter:
  "stack_registered s \<Longrightarrow> stack_registered (after (enter s m))"
  by (auto simp add: stack_registered_iff enter_def after_def)

lemma stack_registered_leave:
  "stack_registered s \<Longrightarrow> stack_registered (after (leave s m))"
  by (auto simp add: stack_registered_iff leave_def after_def dest: notin_set_remove1)

lemma stack_registered_leave_current_mode:
  "stack_registered s \<Longrightarrow> stack_registered (after (leave_current_mode s))"
  using stack_registered_leave [of s]
  by (auto simp add: leave_current_mode_def after_def split: option.splits)

lemma maybe_leave_after: "after (maybe_leave s m) = after (leave s m)"
  by (simp add: maybe_leave_def leave_def after_def)

lemma stack_registered_on_config_changed:
  "stack_registered s \<Longrightarrow> stack_registered (on_config_changed s section option cfg)"
  by (simp add: stack_registered_iff on_config_changed_def)

lemma stack_registered_make_call:
  "stack_registered s \<Longrightarrow> stack_registered (snd (make_call s c))"
  by (cases c)
     (simp_all add: stack_registered_register stack_registered_enter stack_registered_leave
        stack_registered_leave_current_mode maybe_leave_after
        stack_registered_on_config_changed)

lemma make_calls_Cons_snd:
  "snd (make_calls s (c # cs)) = snd (make_calls (snd (make_call s c)) cs)"
  by (cases "make_call s c"; cases "make_calls (snd (make_call s c)) cs") simp

lemma stack_registered_make_calls:
  "stack_registered s \<Longrightarrow> stack_registered (snd (make_calls s cs))"
proof (induction cs arbitrary: s)
  case Nil
  then show ?case by simp
next
  case (Cons c cs)
  from Cons.prems have "stack_registered (snd (make_call s c))"
    by (rule stack_registered_make_call)
  then have "stack_registered (snd (make_calls (snd (make_call s c)) cs))"
    by (rule Cons.IH)
  then show ?case by (simp only: make_calls_Cons_snd)
qed

lemma pending_register:
  "releaseevents_to_pass (register s m handler pt) = releaseevents_to_pass s"
  by (simp add: register_def Let_def)

lemma pending_enter: "releaseevents_to_pass (after (enter s m)) = releaseevents_to_pass s"
  by (simp add: enter_def after_def)

lemma pending_leave: "releaseevents_to_pass (after (leave s m)) = releaseevents_to_pass s"
  by (simp add: leave_def after_def)

lemma pending_leave_current_mode:
  "releaseevents_to_pass (after (leave_current_mode s)) = releaseevents_to_pass s"
  using pending_leave [of s]
  by (simp add: leave_current_mode_def after_def split: option.splits)

lemma pending_on_config_changed:
  "releaseevents_to_pass (on_config_changed s section option cfg) = releaseevents_to_pass s"
  by (simp add: on_config_changed_def)

lemma pending_make_call:
  "releaseevents_to_pass (snd (make_call s c)) = releaseevents_to_pass s"
  by (cases c)
     (simp_all add: pending_register pending_enter pending_leave pending_leave_current_mode
        maybe_leave_after pending_on_config_changed)

lemma pending_make_calls:
  "releaseevents_to_pass (snd (make_calls s cs)) = releaseevents_to_pass s"
proof (induction cs arbitrary: s)
  case Nil
  then show ?case by simp
next
  case (Cons c cs)
  have "releaseevents_to_pass (snd (make_calls (snd (make_call s c)) cs))
        = releaseevents_to_pass (snd (make_call s c))"
    by (rule Cons.IH)
  then show ?case by (simp only: make_calls_Cons_snd pending_make_call)
qed

lemma passthrough_make_call:
  "m \<in> set (passthrough s) \<Longrightarrow> m \<in> set (passthrough (snd (make_call s c)))"
  by (cases c)
     (auto simp add: register_def enter_def leave_def leave_current_mode_def maybe_leave_def
        on_config_changed_def after_def Let_def split: option.splits)

lemma passthrough_make_calls:
  "m \<in> set (passthrough s) \<Longrightarrow> m \<in> set (passthrough (snd (make_calls s cs)))"
proof (induction cs arbitrary: s)
  case Nil
  then show ?case by simp
next
  case (Cons c cs)
  from Cons.prems have "m \<in> set (passthrough (snd (make_call s c)))"
    by (rule passthrough_make_call)
  then have "m \<in> set (passthrough (snd (make_calls (snd (make_call s c)) cs)))"
    by (rule Cons.IH)
  then show ?case by (simp only: make_calls_Cons_snd)
qed

lemma run_handler_after:
  "after (run_handler s handler evt) =
     (case handler of None \<Rightarrow> s | Some h \<Rightarrow> snd (make_calls s (fst (h evt))))"
  by (simp add: run_handler_def after_def split: option.splits prod.splits)

lemma stack_registered_run_handler:
  "stack_registered s \<Longrightarrow> stack_registered (after (run_handler s handler evt))"
  by (simp add: run_handler_after stack_registered_make_calls split: option.splits)

lemma pending_run_handler:
  "releaseevents_to_pass (after (run_handler s handler evt)) = releaseevents_to_pass s"
  by (simp add: run_handler_after pending_make_calls split: option.splits)

lemma passthrough_run_handler:
  "m \<in> set (passthrough s) \<Longrightarrow> m \<in> set (passthrough (after (run_handler s handler evt)))"
  by (simp add: run_handler_after passthrough_make_calls split: option.splits)

lemma eventFilter_press:
  assumes "mode s = Some m" and "handlers s m = Some handler"
  shows "eventFilter s QWindow KeyPress evt =
     (case run_handler s handler evt of
        (Inl e, sigs, s1) \<Rightarrow> (Inl e, key_pressed evt # sigs, s1)
      | (Inr handled, sigs, s1) \<Rightarrow>
          (Inr (handled \<or> \<not> (mode_in_passthrough s1 \<or> forward_unbound_keys s1)),
           key_pressed evt # sigs,
           if handled \<or> \<not> (mode_in_passthrough s1 \<or> forward_unbound_keys s1) then s1
           else s1\<lparr>releaseevents_to_pass := releaseevents_to_pass s1 @ [evt]\<rparr>))"
  using assms
  by (auto simp add: eventFilter_def Let_def split: prod.splits sum.splits)

subsection \<open>Before any mode\<close>

text \<open>
  C9. An event that arrives while the mode stack is empty is forwarded: \<open>eventFilter\<close>
  returns \<open>False\<close>, emits no signal and leaves the manager as it was.
\<close>

theorem eventFilter_before_any_mode:
  "mode_stack s = [] \<Longrightarrow> eventFilter s obj typ evt = (Inr False, [], s)"
  by (simp add: eventFilter_def mode_def)

theorem eventFilter_before_any_mode_witness:
  "mode_stack (registered False) = []
   \<and> eventFilter (registered False) QWindow KeyPress 7 = (Inr False, [], registered False)"
  using eventFilter_before_any_mode [of "registered False" QWindow KeyPress 7]
  by (simp add: registered_def register_def ModeManager_init_def)

subsection \<open>The decision on a key press\<close>

text \<open>
  C1, as claimed, fails. \<open>insert\<close> is current and in the passthrough list, its handler
  returns \<open>False\<close>, forward-unbound-keys is off: the claim gives a forwarded press. The
  handler has left \<open>insert\<close>, line 208 reads the mode again, finds \<open>normal\<close>, and the
  press is consumed.
\<close>

theorem press_decided_by_mode_after_handler:
  "mode (in_insert handles_all leaves_mode) = Some ''insert''
   \<and> ''insert'' \<in> set (passthrough (in_insert handles_all leaves_mode))
   \<and> forward_unbound_keys (in_insert handles_all leaves_mode) = False
   \<and> handlers (in_insert handles_all leaves_mode) ''insert'' = Some (Some leaves_mode)
   \<and> snd (leaves_mode 7) = Inr False
   \<and> fst (eventFilter (in_insert handles_all leaves_mode) QWindow KeyPress 7) = Inr True"
  by (simp add: in_insert_def register_def ModeManager_init_def enter_def after_def emitted_def
      mode_def eventFilter_def run_handler_def leaves_mode_def leave_current_mode_def
      leave_def mode_in_passthrough_def Let_def)

text \<open>
  C1, amended. A key press from the window is dispatched while mode \<open>m\<close> is current and
  registered; the handler of \<open>m\<close> returns \<open>handled\<close> (\<open>False\<close> for the handler \<open>None\<close>)
  and leaves the manager as \<open>s1\<close>. The value returned is
  \<open>handled \<or> \<not> (mode in passthrough \<or> forward_unbound_keys)\<close> with the mode, the
  passthrough list and the setting of \<open>s1\<close>, so as they are when the handler has
  returned. When the handler has made no change they are those of the dispatch, and the
  mode is \<open>m\<close>.
\<close>

theorem eventFilter_press_decision:
  assumes "mode s = Some m" and "handlers s m = Some handler"
    and "run_handler s handler evt = (Inr handled, sigs, s1)"
  shows "fst (eventFilter s QWindow KeyPress evt) =
           Inr (handled \<or> \<not> (mode_in_passthrough s1 \<or> forward_unbound_keys s1))
   \<and> (s1 = s \<longrightarrow>
        fst (eventFilter s QWindow KeyPress evt) =
          Inr (handled \<or> \<not> (m \<in> set (passthrough s) \<or> forward_unbound_keys s)))
   \<and> (handler = None \<longrightarrow> \<not> handled \<and> s1 = s)"
proof (intro conjI impI)
  from assms
  show decision: "fst (eventFilter s QWindow KeyPress evt) =
      Inr (handled \<or> \<not> (mode_in_passthrough s1 \<or> forward_unbound_keys s1))"
    by (simp add: eventFilter_press)
  assume "s1 = s"
  with decision assms(1)
  show "fst (eventFilter s QWindow KeyPress evt) =
      Inr (handled \<or> \<not> (m \<in> set (passthrough s) \<or> forward_unbound_keys s))"
    by (simp add: mode_in_passthrough_def)
next
  assume "handler = None"
  with assms(3) show "\<not> handled" and "s1 = s"
    by (simp_all add: run_handler_def)
qed

theorem eventFilter_press_decision_witness:
  "mode (in_mode ''normal'' False) = Some ''normal''
   \<and> handlers (in_mode ''normal'' False) ''normal'' = Some (Some handles_all)
   \<and> run_handler (in_mode ''normal'' False) (Some handles_all) 7
       = (Inr True, [], in_mode ''normal'' False)
   \<and> fst (eventFilter (in_mode ''normal'' False) QWindow KeyPress 7) = Inr True
   \<and> mode (in_insert handles_all leaves_mode) = Some ''insert''
   \<and> handlers (in_insert handles_all leaves_mode) ''insert'' = Some (Some leaves_mode)
   \<and> run_handler (in_insert handles_all leaves_mode) (Some leaves_mode) 7
       = (Inr False, [left ''insert''],
          after (leave_current_mode (in_insert handles_all leaves_mode)))
   \<and> mode (after (leave_current_mode (in_insert handles_all leaves_mode))) = Some ''normal''
   \<and> fst (eventFilter (in_insert handles_all leaves_mode) QWindow KeyPress 7) = Inr True"
  using eventFilter_press_decision
    [of "in_mode ''normal'' False" "''normal''" "Some handles_all" 7 True "[]"
        "in_mode ''normal'' False"]
    eventFilter_press_decision
    [of "in_insert handles_all leaves_mode" "''insert''" "Some leaves_mode" 7 False
        "[left ''insert'']" "after (leave_current_mode (in_insert handles_all leaves_mode))"]
  by (simp add: in_mode_def in_insert_def enter_def registered_def register_def
      ModeManager_init_def after_def emitted_def mode_def handles_all_def leaves_mode_def
      run_handler_def leave_current_mode_def leave_def mode_in_passthrough_def)

text \<open>
  C3, as claimed, fails. In a mode registered with passthrough the same press is consumed
  when the handler returns \<open>True\<close> and forwarded when it returns \<open>False\<close>.
\<close>

theorem passthrough_handled_matters:
  "fst (eventFilter (passthrough_mode handles_all) QWindow KeyPress 7) = Inr True
   \<and> fst (eventFilter (passthrough_mode handles_none) QWindow KeyPress 7) = Inr False"
  by (simp add: passthrough_mode_def register_def ModeManager_init_def enter_def after_def
      mode_def eventFilter_def run_handler_def mode_in_passthrough_def handles_all_def
      handles_none_def Let_def)

text \<open>
  C3, amended. A key press from the window is dispatched while the current mode \<open>m\<close> is
  registered with passthrough. When the handler returns \<open>True\<close> the press is consumed.
  When it returns \<open>False\<close> and \<open>m\<close> is still the current mode once it has returned, the
  press is forwarded, whatever the forward-unbound-keys setting is.
\<close>

theorem passthrough_press_decision:
  assumes "mode s = Some m" and "handlers s m = Some handler" and "m \<in> set (passthrough s)"
    and "run_handler s handler evt = (Inr handled, sigs, s1)"
  shows "(handled \<longrightarrow> fst (eventFilter s QWindow KeyPress evt) = Inr True)
   \<and> (\<not> handled \<and> mode s1 = Some m \<longrightarrow>
        fst (eventFilter s QWindow KeyPress evt) = Inr False)"
proof -
  from assms(4) have "s1 = after (run_handler s handler evt)"
    by (simp add: after_def)
  with assms(3) have "m \<in> set (passthrough s1)"
    by (simp add: passthrough_run_handler)
  then have "mode s1 = Some m \<Longrightarrow> mode_in_passthrough s1"
    by (simp add: mode_in_passthrough_def)
  with assms(1,2,4) show ?thesis
    by (auto simp add: eventFilter_press)
qed

theorem passthrough_press_decision_witness:
  "mode (passthrough_mode handles_none) = Some ''insert''
   \<and> handlers (passthrough_mode handles_none) ''insert'' = Some (Some handles_none)
   \<and> ''insert'' \<in> set (passthrough (passthrough_mode handles_none))
   \<and> run_handler (passthrough_mode handles_none) (Some handles_none) 7
       = (Inr False, [], passthrough_mode handles_none)
   \<and> fst (eventFilter (passthrough_mode handles_none) QWindow KeyPress 7) = Inr False
   \<and> mode (passthrough_mode handles_all) = Some ''insert''
   \<and> handlers (passthrough_mode handles_all) ''insert'' = Some (Some handles_all)
   \<and> ''insert'' \<in> set (passthrough (passthrough_mode handles_all))
   \<and> run_handler (passthrough_mode handles_all) (Some handles_all) 7
       = (Inr True, [], passthrough_mode handles_all)
   \<and> fst (eventFilter (passthrough_mode handles_all) QWindow KeyPress 7) = Inr True"
  using passthrough_press_decision
    [of "passthrough_mode handles_none" "''insert''" "Some handles_none" 7 False "[]"
        "passthrough_mode handles_none"]
    passthrough_press_decision
    [of "passthrough_mode handles_all" "''insert''" "Some handles_all" 7 True "[]"
        "passthrough_mode handles_all"]
  by (simp add: passthrough_mode_def register_def ModeManager_init_def enter_def after_def
      mode_def run_handler_def handles_none_def handles_all_def)

subsection \<open>Registration\<close>

text \<open>
  C4, as claimed, fails. A mode registered with passthrough and then again without it
  has the second handler but is still in the passthrough list: with forward-unbound-keys
  off, a press its handler does not handle is forwarded.
\<close>

theorem second_registration_keeps_passthrough:
  "handlers registered_twice ''hint'' = Some (Some handles_none)
   \<and> forward_unbound_keys registered_twice = False
   \<and> ''hint'' \<in> set (passthrough registered_twice)
   \<and> fst (eventFilter registered_twice QWindow KeyPress 7) = Inr False"
  by (simp add: registered_twice_def register_def ModeManager_init_def enter_def after_def
      mode_def eventFilter_def run_handler_def mode_in_passthrough_def handles_none_def
      Let_def)

text \<open>
  C4, amended. After \<open>register(m, h1, p1)\<close> then \<open>register(m, h2, p2)\<close> the handler of
  \<open>m\<close> is \<open>h2\<close>, and \<open>m\<close> is in the passthrough list exactly when \<open>p1\<close> or \<open>p2\<close> is true
  or it was there before: a press dispatched in mode \<open>m\<close>, whose handler \<open>h2\<close> leaves the
  manager as it is, is decided by what \<open>h2\<close> returns and by that membership.
\<close>

theorem register_twice:
  "handlers (register (register s m h1 p1) m h2 p2) m = Some h2
   \<and> (m \<in> set (passthrough (register (register s m h1 p1) m h2 p2)))
       = (p1 \<or> p2 \<or> m \<in> set (passthrough s))
   \<and> (mode s = Some m
       \<and> run_handler (register (register s m h1 p1) m h2 p2) h2 evt
           = (Inr handled, sigs, register (register s m h1 p1) m h2 p2) \<longrightarrow>
        fst (eventFilter (register (register s m h1 p1) m h2 p2) QWindow KeyPress evt) =
        Inr (handled
             \<or> \<not> ((p1 \<or> p2 \<or> m \<in> set (passthrough s)) \<or> forward_unbound_keys s)))"
proof (intro conjI impI)
  let ?s = "register (register s m h1 p1) m h2 p2"
  show h2: "handlers ?s m = Some h2"
    by (simp add: register_def Let_def)
  show pt: "(m \<in> set (passthrough ?s)) = (p1 \<or> p2 \<or> m \<in> set (passthrough s))"
    by (auto simp add: register_def Let_def)
  assume press: "mode s = Some m \<and> run_handler ?s h2 evt = (Inr handled, sigs, ?s)"
  have "mode ?s = mode s"
    by (simp add: mode_def register_def Let_def)
  with press have m: "mode ?s = Some m"
    by simp
  from press have rh: "run_handler ?s h2 evt = (Inr handled, sigs, ?s)"
    by (rule conjunct2)
  have setting: "forward_unbound_keys ?s = forward_unbound_keys s"
    by (simp add: register_def Let_def)
  from m pt have member: "mode_in_passthrough ?s = (p1 \<or> p2 \<or> m \<in> set (passthrough s))"
    by (simp add: mode_in_passthrough_def)
  from m h2 rh
  show "fst (eventFilter ?s QWindow KeyPress evt) =
      Inr (handled \<or> \<not> ((p1 \<or> p2 \<or> m \<in> set (passthrough s)) \<or> forward_unbound_keys s))"
    by (simp add: eventFilter_press setting member)
qed

theorem register_twice_witness:
  "handlers (register (register (in_mode ''normal'' False) ''normal'' (Some handles_all) True)
       ''normal'' (Some handles_none) False) ''normal'' = Some (Some handles_none)
   \<and> ''normal'' \<in> set (passthrough
       (register (register (in_mode ''normal'' False) ''normal'' (Some handles_all) True)
          ''normal'' (Some handles_none) False))
   \<and> mode (in_mode ''normal'' False) = Some ''normal''
   \<and> fst (eventFilter
       (register (register (in_mode ''normal'' False) ''normal'' (Some handles_all) True)
          ''normal'' (Some handles_none) False) QWindow KeyPress 7) = Inr False"
  using register_twice
    [of "in_mode ''normal'' False" "''normal''" "Some handles_all" True "Some handles_none"
        False 7 False "[]"]
  by (simp add: in_mode_def enter_def registered_def register_def ModeManager_init_def
      after_def mode_def run_handler_def handles_none_def)

subsection \<open>The mode stack\<close>

text \<open>
  Every entry point keeps the invariant of the data model: a mode is pushed only by
  \<open>enter\<close>, which checks the registry first, and no entry point removes a registry entry.
  \<open>eventFilter\<close> changes the stack through the calls of the handler only.
\<close>

lemma eventFilter_after:
  "after (eventFilter s obj typ evt) = s\<lparr>releaseevents_to_pass :=
       releaseevents_to_pass (after (eventFilter s obj typ evt))\<rparr>
   \<or> (\<exists>handler. after (eventFilter s obj typ evt) =
         (after (run_handler s handler evt))\<lparr>releaseevents_to_pass :=
            releaseevents_to_pass (after (eventFilter s obj typ evt))\<rparr>)"
proof (cases "typ = KeyPress \<and> obj = QWindow \<and> (\<exists>m handler. mode s = Some m \<and> handlers s m = Some handler)")
  case True
  then obtain m handler where m: "mode s = Some m" and h: "handlers s m = Some handler"
    and press: "typ = KeyPress" "obj = QWindow"
    by blast
  obtain result sigs s1 where rh: "run_handler s handler evt = (result, sigs, s1)"
    by (cases "run_handler s handler evt") auto
  then have "after (eventFilter s obj typ evt) =
      (after (run_handler s handler evt))\<lparr>releaseevents_to_pass :=
          releaseevents_to_pass (after (eventFilter s obj typ evt))\<rparr>"
    unfolding press by (cases result) (simp_all add: eventFilter_press [OF m h] after_def)
  then show ?thesis by blast
next
  case False
  then have "after (eventFilter s obj typ evt) = s\<lparr>releaseevents_to_pass :=
       releaseevents_to_pass (after (eventFilter s obj typ evt))\<rparr>"
    by (cases "typ")
       (auto simp add: eventFilter_def after_def split: option.splits)
  then show ?thesis by blast
qed

lemma stack_registered_pending_update:
  "stack_registered (s\<lparr>releaseevents_to_pass := xs\<rparr>) = stack_registered s"
  by (simp add: stack_registered_def)

lemma stack_registered_eventFilter:
  assumes "stack_registered s"
  shows "stack_registered (after (eventFilter s obj typ evt))"
proof -
  from eventFilter_after [of s obj "typ" evt]
  consider "after (eventFilter s obj typ evt) = s\<lparr>releaseevents_to_pass :=
       releaseevents_to_pass (after (eventFilter s obj typ evt))\<rparr>"
    | handler where "after (eventFilter s obj typ evt) =
         (after (run_handler s handler evt))\<lparr>releaseevents_to_pass :=
            releaseevents_to_pass (after (eventFilter s obj typ evt))\<rparr>"
    by blast
  then show ?thesis
  proof cases
    case 1
    have "stack_registered (s\<lparr>releaseevents_to_pass :=
       releaseevents_to_pass (after (eventFilter s obj typ evt))\<rparr>)"
      using assms by (simp only: stack_registered_pending_update)
    with 1 show ?thesis by simp
  next
    case 2
    have "stack_registered ((after (run_handler s handler evt))\<lparr>releaseevents_to_pass :=
       releaseevents_to_pass (after (eventFilter s obj typ evt))\<rparr>)"
      using assms
      by (simp only: stack_registered_pending_update stack_registered_run_handler)
    with 2 show ?thesis by simp
  qed
qed

lemma apply_op_EventFilter_snd:
  "snd (apply_op (log, s) (EventFilter obj typ evt)) = after (eventFilter s obj typ evt)"
  by (simp add: after_def split: prod.splits sum.splits)

lemma stack_registered_apply_op:
  "stack_registered s \<Longrightarrow> stack_registered (snd (apply_op (log, s) x))"
proof (cases x)
  case (Call c)
  assume "stack_registered s"
  then show ?thesis
    unfolding Call by (simp add: stack_registered_make_call)
next
  case (EventFilter ob ty ev)
  assume "stack_registered s"
  then show ?thesis
    unfolding EventFilter by (simp only: apply_op_EventFilter_snd stack_registered_eventFilter)
qed

lemma foldl_invariant:
  "P a \<Longrightarrow> (\<And>b x. P b \<Longrightarrow> P (f b x)) \<Longrightarrow> P (foldl f a xs)"
  by (induction xs arbitrary: a) simp_all

lemma stack_registered_run:
  "stack_registered s \<Longrightarrow> stack_registered (snd (run s ops))"
  unfolding run_def
  by (rule foldl_invariant [where P = "\<lambda>a. stack_registered (snd a)"])
     (auto simp add: stack_registered_apply_op)

text \<open>
  C5. \<open>enter\<close> of a mode with no registry entry raises the \<open>ValueError\<close> for an unknown
  mode, emits nothing and leaves the manager, so also the stack, as it was. In every state
  reached from construction by any sequence of calls, every mode on the stack has a
  registry entry.
\<close>

theorem enter_unregistered_fails:
  "(handlers s m = None \<longrightarrow>
      enter s m = (Inl (ValueError (''No handler for mode '' @ m)), [], s))
   \<and> (\<forall>m' \<in> set (mode_stack (snd (run (ModeManager_init cfg) ops))).
        handlers (snd (run (ModeManager_init cfg) ops)) m' \<noteq> None)"
  using stack_registered_run [OF stack_registered_init, of cfg ops]
  by (simp add: enter_def stack_registered_iff)

theorem enter_unregistered_fails_witness:
  "handlers (registered False) ''hint'' = None
   \<and> enter (registered False) ''hint'' =
       (Inl (ValueError ''No handler for mode hint''), [], registered False)
   \<and> mode_stack (snd (run (ModeManager_init False) held_key_ops)) = [''normal'']
   \<and> handlers (snd (run (ModeManager_init False) held_key_ops)) ''normal'' \<noteq> None"
  using enter_unregistered_fails [of "registered False" "''hint''" False held_key_ops]
  by (simp add: registered_def register_def ModeManager_init_def enter_def run_def
      held_key_ops_def after_def emitted_def leave_def eventFilter_def run_handler_def
      mode_in_passthrough_def mode_def handles_all_def handles_none_def Let_def)

lemma remove1_first_occurrence:
  "m \<in> set xs \<Longrightarrow> \<exists>pre post. xs = pre @ m # post \<and> m \<notin> set pre \<and> remove1 m xs = pre @ post"
proof -
  assume "m \<in> set xs"
  then obtain pre post where "xs = pre @ m # post" and "m \<notin> set pre"
    by (auto dest: split_list_first)
  then have "remove1 m xs = pre @ post"
    by (simp add: remove1_append)
  with \<open>xs = pre @ m # post\<close> \<open>m \<notin> set pre\<close> show ?thesis by blast
qed

text \<open>
  C6. \<open>leave\<close> of a mode that is nowhere on the stack raises the \<open>ValueError\<close> for a mode
  that is not active, emits nothing and leaves the manager as it was. When the mode is on
  the stack, \<open>leave\<close> deletes its first occurrence and emits \<open>left\<close> with that mode.
\<close>

theorem leave_absent_or_first_occurrence:
  "(m \<notin> set (mode_stack s) \<longrightarrow>
      leave s m = (Inl (ValueError (''Mode '' @ m @ '' not on mode stack!'')), [], s))
   \<and> (m \<in> set (mode_stack s) \<longrightarrow>
      (\<exists>pre post. mode_stack s = pre @ m # post \<and> m \<notin> set pre
         \<and> leave s m = (Inr (), [left m], s\<lparr>mode_stack := pre @ post\<rparr>)))"
proof (intro conjI impI)
  assume "m \<notin> set (mode_stack s)"
  then show "leave s m = (Inl (ValueError (''Mode '' @ m @ '' not on mode stack!'')), [], s)"
    by (simp add: leave_def)
next
  assume present: "m \<in> set (mode_stack s)"
  from remove1_first_occurrence [OF present]
  obtain pre post where stack: "mode_stack s = pre @ m # post" and first: "m \<notin> set pre"
    and removed: "remove1 m (mode_stack s) = pre @ post"
    by (elim exE conjE)
  from present removed
  have "leave s m = (Inr (), [left m], s\<lparr>mode_stack := pre @ post\<rparr>)"
    by (simp add: leave_def)
  with stack first
  show "\<exists>pre post. mode_stack s = pre @ m # post \<and> m \<notin> set pre
          \<and> leave s m = (Inr (), [left m], s\<lparr>mode_stack := pre @ post\<rparr>)"
    by (intro exI conjI)
qed


theorem leave_absent_or_first_occurrence_witness:
  "''hint'' \<notin> set (mode_stack (in_mode ''insert'' False))
   \<and> leave (in_mode ''insert'' False) ''hint'' =
       (Inl (ValueError ''Mode hint not on mode stack!''), [], in_mode ''insert'' False)
   \<and> ''insert'' \<in> set (mode_stack (in_mode ''insert'' False))
   \<and> leave (in_mode ''insert'' False) ''insert'' =
       (Inr (), [left ''insert''], registered False)"
  using leave_absent_or_first_occurrence [of "''hint''" "in_mode ''insert'' False"]
    leave_absent_or_first_occurrence [of "''insert''" "in_mode ''insert'' False"]
  by (simp add: in_mode_def enter_def registered_def register_def ModeManager_init_def
      after_def leave_def)

text \<open>
  C7. With \<open>normal\<close> on top of the stack \<open>leave_current_mode\<close> raises the \<open>ValueError\<close>
  for leaving normal mode and leaves the manager as it was; with any other mode on top it
  is \<open>leave\<close> of that mode. With an empty stack it is \<open>leave(None)\<close>, which raises.
\<close>

theorem leave_current_mode_cases:
  "(mode s = Some ''normal'' \<longrightarrow>
      leave_current_mode s = (Inl (ValueError ''Can't leave normal mode!''), [], s))
   \<and> (mode s = Some m \<and> m \<noteq> ''normal'' \<longrightarrow> leave_current_mode s = leave s m)
   \<and> (mode s = None \<longrightarrow>
      leave_current_mode s = (Inl (ValueError ''Mode None not on mode stack!''), [], s))"
  by (simp add: leave_current_mode_def)

theorem leave_current_mode_cases_witness:
  "mode (in_mode ''normal'' False) = Some ''normal''
   \<and> leave_current_mode (in_mode ''normal'' False) =
       (Inl (ValueError ''Can't leave normal mode!''), [], in_mode ''normal'' False)
   \<and> mode (in_mode ''insert'' False) = Some ''insert''
   \<and> leave_current_mode (in_mode ''insert'' False) =
       (Inr (), [left ''insert''], registered False)
   \<and> mode (registered False) = None
   \<and> leave_current_mode (registered False) =
       (Inl (ValueError ''Mode None not on mode stack!''), [], registered False)"
  using leave_current_mode_cases [of "in_mode ''normal'' False" "''normal''"]
    leave_current_mode_cases [of "in_mode ''insert'' False" "''insert''"]
    leave_current_mode_cases [of "registered False" "''normal''"]
  by (simp add: in_mode_def enter_def registered_def register_def ModeManager_init_def
      after_def leave_def mode_def)

text \<open>
  C8. For a registered mode \<open>m\<close>: when \<open>m\<close> is already on top of the stack, \<open>enter\<close>
  returns without a signal and without touching the manager; otherwise it appends \<open>m\<close>
  to the stack, which grows by one, and emits \<open>entered\<close> with \<open>m\<close>. In both cases the
  current mode is \<open>m\<close> afterwards.
\<close>

theorem enter_registered:
  assumes "handlers s m \<noteq> None"
  shows "(mode s = Some m \<longrightarrow> enter s m = (Inr (), [], s))
   \<and> (mode s \<noteq> Some m \<longrightarrow>
        enter s m = (Inr (), [entered m], s\<lparr>mode_stack := mode_stack s @ [m]\<rparr>)
        \<and> length (mode_stack (after (enter s m))) = Suc (length (mode_stack s)))
   \<and> mode (after (enter s m)) = Some m"
  using assms by (auto simp add: enter_def mode_def after_def split: if_splits)

theorem enter_registered_witness:
  "handlers (in_mode ''normal'' False) ''normal'' \<noteq> None
   \<and> mode (in_mode ''normal'' False) = Some ''normal''
   \<and> enter (in_mode ''normal'' False) ''normal'' = (Inr (), [], in_mode ''normal'' False)
   \<and> handlers (in_mode ''normal'' False) ''insert'' \<noteq> None
   \<and> mode (in_mode ''normal'' False) \<noteq> Some ''insert''
   \<and> fst (snd (enter (in_mode ''normal'' False) ''insert'')) = [entered ''insert'']
   \<and> mode_stack (after (enter (in_mode ''normal'' False) ''insert'')) = [''normal'', ''insert'']
   \<and> mode (after (enter (in_mode ''normal'' False) ''insert'')) = Some ''insert''"
  using enter_registered [of "in_mode ''normal'' False" "''normal''"]
    enter_registered [of "in_mode ''normal'' False" "''insert''"]
  by (simp add: in_mode_def enter_def registered_def register_def ModeManager_init_def
      after_def mode_def)

subsection \<open>What eventFilter changes\<close>

text \<open>
  C10, as claimed, fails. The key bound to \<open>enter_mode insert\<close> is pressed in \<open>normal\<close>
  mode: the handler runs inside \<open>eventFilter\<close>, and when \<open>eventFilter\<close> returns the
  stack has grown.
\<close>

theorem handler_changes_mode_stack:
  "mode_stack (in_normal enters_insert) = [''normal'']
   \<and> handlers (in_normal enters_insert) ''normal'' = Some (Some enters_insert)
   \<and> mode_stack (after (eventFilter (in_normal enters_insert) QWindow KeyPress 7))
       = [''normal'', ''insert'']"
  by (simp add: in_normal_def register_def ModeManager_init_def enter_def after_def
      emitted_def mode_def eventFilter_def run_handler_def enters_insert_def
      mode_in_passthrough_def Let_def)

lemma eventFilter_no_handler:
  assumes "\<not> handler_runs s obj typ"
  shows "after (eventFilter s obj typ evt) =
     s\<lparr>releaseevents_to_pass :=
         (if mode s \<noteq> None \<and> obj = QWindow \<and> typ = KeyRelease
             \<and> fst (eventFilter s obj typ evt) = Inr False
          then filter (\<lambda>e. e \<noteq> evt) (releaseevents_to_pass s)
          else releaseevents_to_pass s)\<rparr>"
  using assms
  by (cases "typ"; cases obj)
     (auto simp add: handler_runs_def eventFilter_def after_def split: option.splits)

lemma eventFilter_with_handler:
  assumes "mode s = Some m" and "handlers s m = Some handler"
  shows "after (eventFilter s QWindow KeyPress evt) =
     (after (run_handler s handler evt))\<lparr>releaseevents_to_pass :=
        (if fst (eventFilter s QWindow KeyPress evt) = Inr False
         then releaseevents_to_pass s @ [evt] else releaseevents_to_pass s)\<rparr>"
proof -
  obtain result sigs s1 where rh: "run_handler s handler evt = (result, sigs, s1)"
    by (cases "run_handler s handler evt") auto
  then have "releaseevents_to_pass s1 = releaseevents_to_pass s"
    using pending_run_handler [of s handler evt] by (simp add: after_def)
  with rh show ?thesis
    by (cases result) (auto simp add: eventFilter_press [OF assms] after_def)
qed

text \<open>
  C10, amended. When no handler runs (a release, another kind of event, an event from
  another object, an event before any mode is entered) \<open>eventFilter\<close> leaves the mode
  stack, the registry, the passthrough list and the setting as they were. When a press
  reaches the handler of the current mode, they are as the calls of that handler left
  them, and as they were when it makes none. \<open>eventFilter\<close> itself changes the pending
  releases only: it appends the event when it forwards a press and removes every entry
  equal to the event when it forwards a release.
\<close>

theorem eventFilter_frame:
  "(\<not> handler_runs s obj typ \<longrightarrow>
      mode_stack (after (eventFilter s obj typ evt)) = mode_stack s
      \<and> handlers (after (eventFilter s obj typ evt)) = handlers s
      \<and> passthrough (after (eventFilter s obj typ evt)) = passthrough s
      \<and> forward_unbound_keys (after (eventFilter s obj typ evt)) = forward_unbound_keys s
      \<and> releaseevents_to_pass (after (eventFilter s obj typ evt)) =
          (if mode s \<noteq> None \<and> obj = QWindow \<and> typ = KeyRelease
              \<and> fst (eventFilter s obj typ evt) = Inr False
           then filter (\<lambda>e. e \<noteq> evt) (releaseevents_to_pass s)
           else releaseevents_to_pass s))
   \<and> (mode s = Some m \<and> handlers s m = Some handler \<longrightarrow>
       after (eventFilter s QWindow KeyPress evt) =
         (after (run_handler s handler evt))\<lparr>releaseevents_to_pass :=
            (if fst (eventFilter s QWindow KeyPress evt) = Inr False
             then releaseevents_to_pass s @ [evt] else releaseevents_to_pass s)\<rparr>)
   \<and> ((case handler of None \<Rightarrow> True | Some h \<Rightarrow> fst (h evt) = []) \<longrightarrow>
       after (run_handler s handler evt) = s)"
proof (intro conjI impI)
  assume "\<not> handler_runs s obj typ"
  then have unchanged: "after (eventFilter s obj typ evt) =
     s\<lparr>releaseevents_to_pass :=
         (if mode s \<noteq> None \<and> obj = QWindow \<and> typ = KeyRelease
             \<and> fst (eventFilter s obj typ evt) = Inr False
          then filter (\<lambda>e. e \<noteq> evt) (releaseevents_to_pass s)
          else releaseevents_to_pass s)\<rparr>"
    by (rule eventFilter_no_handler)
  show "mode_stack (after (eventFilter s obj typ evt)) = mode_stack s"
    by (subst unchanged) simp
  show "handlers (after (eventFilter s obj typ evt)) = handlers s"
    by (subst unchanged) simp
  show "passthrough (after (eventFilter s obj typ evt)) = passthrough s"
    by (subst unchanged) simp
  show "forward_unbound_keys (after (eventFilter s obj typ evt)) = forward_unbound_keys s"
    by (subst unchanged) simp
  show "releaseevents_to_pass (after (eventFilter s obj typ evt)) =
          (if mode s \<noteq> None \<and> obj = QWindow \<and> typ = KeyRelease
              \<and> fst (eventFilter s obj typ evt) = Inr False
           then filter (\<lambda>e. e \<noteq> evt) (releaseevents_to_pass s)
           else releaseevents_to_pass s)"
    by (subst unchanged) simp
next
  assume "mode s = Some m \<and> handlers s m = Some handler"
  then show "after (eventFilter s QWindow KeyPress evt) =
         (after (run_handler s handler evt))\<lparr>releaseevents_to_pass :=
            (if fst (eventFilter s QWindow KeyPress evt) = Inr False
             then releaseevents_to_pass s @ [evt] else releaseevents_to_pass s)\<rparr>"
    by (simp add: eventFilter_with_handler)
next
  assume "case handler of None \<Rightarrow> True | Some h \<Rightarrow> fst (h evt) = []"
  then show "after (run_handler s handler evt) = s"
    by (simp add: run_handler_after split: option.splits)
qed

theorem eventFilter_frame_witness:
  "\<not> handler_runs (in_mode ''insert'' True) QWindow KeyRelease
   \<and> mode_stack (after (eventFilter (in_mode ''insert'' True) QWindow KeyRelease 7))
       = [''insert'']
   \<and> mode (in_mode ''insert'' False) = Some ''insert''
   \<and> handlers (in_mode ''insert'' False) ''insert'' = Some (Some handles_none)
   \<and> fst (handles_none 7) = []
   \<and> mode_stack (after (eventFilter (in_mode ''insert'' False) QWindow KeyPress 7)) = [''insert'']
   \<and> passthrough (after (eventFilter (in_mode ''insert'' False) QWindow KeyPress 7)) = [''insert'']
   \<and> releaseevents_to_pass (after (eventFilter (in_mode ''insert'' False) QWindow KeyPress 7)) = [7]"
  using eventFilter_frame
    [of "in_mode ''insert'' True" QWindow KeyRelease 7 "''insert''" "Some handles_none"]
    eventFilter_frame
    [of "in_mode ''insert'' False" QWindow KeyPress 7 "''insert''" "Some handles_none"]
  by (simp add: in_mode_def enter_def registered_def register_def ModeManager_init_def
      after_def mode_def eventFilter_def run_handler_def mode_in_passthrough_def
      handler_runs_def handles_none_def Let_def)

subsection \<open>Pairing of presses and releases\<close>

text \<open>
  As long as every event arrives while a mode is active, the list
  \<open>_releaseevents_to_pass\<close> holds exactly the events for which \<open>release_owed\<close> holds of
  the log: a forwarded press appends the event, a release removes every copy, and no
  other call, of the application or of a handler, touches the list.
\<close>

lemma logged_active:
  assumes "list_all d_active (fst (apply_op (log, s) (EventFilter obj typ evt)))"
  shows "list_all d_active log \<and> mode s \<noteq> None"
proof (cases "mode s")
  case None
  then have "eventFilter s obj typ evt = (Inr False, [], s)"
    by (simp add: eventFilter_def)
  with None assms show ?thesis by simp
next
  case (Some m)
  obtain r sigs s' where "eventFilter s obj typ evt = (r, sigs, s')"
    by (cases "eventFilter s obj typ evt") auto
  with Some assms show ?thesis by (cases r) simp_all
qed

lemma owed_eventFilter:
  assumes rel: "\<forall>e. (e \<in> set (releaseevents_to_pass s)) = release_owed e log"
    and active: "mode s \<noteq> None"
  shows "(e \<in> set (releaseevents_to_pass (snd (apply_op (log, s) (EventFilter obj typ evt)))))
         = release_owed e (fst (apply_op (log, s) (EventFilter obj typ evt)))"
proof -
  from active obtain m where m: "mode s = Some m" by auto
  show ?thesis
  proof (cases "handlers s m")
    case None
    with m rel show ?thesis
      by (cases "typ"; cases obj) (simp_all add: eventFilter_def)
  next
    case (Some handler)
    show ?thesis
    proof (cases "typ = KeyPress \<and> obj = QWindow")
      case True
      obtain result sigs s1 where rh: "run_handler s handler evt = (result, sigs, s1)"
        by (cases "run_handler s handler evt") auto
      then have "releaseevents_to_pass s1 = releaseevents_to_pass s"
        using pending_run_handler [of s handler evt] by (simp add: after_def)
      with True rh rel show ?thesis
        by (cases result) (auto simp add: eventFilter_press [OF m Some])
    next
      case False
      with m Some rel show ?thesis
        by (cases "typ"; cases obj) (auto simp add: eventFilter_def)
    qed
  qed
qed

lemma owed_apply_op:
  assumes "list_all d_active (fst b) \<longrightarrow>
      (\<forall>e. (e \<in> set (releaseevents_to_pass (snd b))) = release_owed e (fst b))"
  shows "list_all d_active (fst (apply_op b x)) \<longrightarrow>
      (\<forall>e. (e \<in> set (releaseevents_to_pass (snd (apply_op b x))))
           = release_owed e (fst (apply_op b x)))"
proof (cases b)
  case (Pair log s)
  show ?thesis
  proof (cases x)
    case (Call c)
    with Pair assms show ?thesis
      by (simp add: pending_make_call)
  next
    case (EventFilter ob ty ev)
    show ?thesis
    proof (intro impI allI)
      fix e
      assume "list_all d_active (fst (apply_op b x))"
      then have "list_all d_active log" and active: "mode s \<noteq> None"
        using logged_active [of log s ob ty ev] by (simp_all add: Pair EventFilter)
      with assms have "\<forall>e. (e \<in> set (releaseevents_to_pass s)) = release_owed e log"
        by (simp add: Pair)
      from owed_eventFilter [OF this active]
      show "(e \<in> set (releaseevents_to_pass (snd (apply_op b x))))
            = release_owed e (fst (apply_op b x))"
        by (simp only: Pair EventFilter)
    qed
  qed
qed

lemma owed_run:
  assumes "list_all d_active (fst (run (ModeManager_init cfg) ops))"
  shows "(e \<in> set (releaseevents_to_pass (snd (run (ModeManager_init cfg) ops))))
         = release_owed e (fst (run (ModeManager_init cfg) ops))"
proof -
  have "list_all d_active (fst (foldl apply_op ([], ModeManager_init cfg) ops)) \<longrightarrow>
      (\<forall>e. (e \<in> set (releaseevents_to_pass (snd (foldl apply_op ([], ModeManager_init cfg) ops))))
          = release_owed e (fst (foldl apply_op ([], ModeManager_init cfg) ops)))"
  proof (rule foldl_invariant
      [where P = "\<lambda>a. list_all d_active (fst a) \<longrightarrow>
          (\<forall>e. (e \<in> set (releaseevents_to_pass (snd a))) = release_owed e (fst a))"])
    show "list_all d_active (fst ([], ModeManager_init cfg)) \<longrightarrow>
        (\<forall>e. (e \<in> set (releaseevents_to_pass (snd ([], ModeManager_init cfg))))
            = release_owed e (fst ([], ModeManager_init cfg)))"
      by (simp add: ModeManager_init_def)
  next
    fix b :: "'a dispatch list \<times> 'a ModeManager" and x
    assume "list_all d_active (fst b) \<longrightarrow>
        (\<forall>e. (e \<in> set (releaseevents_to_pass (snd b))) = release_owed e (fst b))"
    then show "list_all d_active (fst (apply_op b x)) \<longrightarrow>
        (\<forall>e. (e \<in> set (releaseevents_to_pass (snd (apply_op b x))))
             = release_owed e (fst (apply_op b x)))"
      by (rule owed_apply_op)
  qed
  with assms show ?thesis by (simp add: run_def)
qed

lemma mode_registered:
  "stack_registered s \<Longrightarrow> mode s = Some m \<Longrightarrow> handlers s m \<noteq> None"
  by (auto simp add: stack_registered_iff mode_def split: if_splits)

lemma release_decision:
  assumes "stack_registered s" and "mode s \<noteq> None"
  shows "fst (eventFilter s QWindow KeyRelease evt) = Inr (evt \<notin> set (releaseevents_to_pass s))"
proof -
  from assms(2) obtain m where m: "mode s = Some m" by auto
  with assms(1) obtain handler where "handlers s m = Some handler"
    using mode_registered by fastforce
  with m show ?thesis by (simp add: eventFilter_def)
qed

lemma release_keeps_mode:
  "mode (after (eventFilter s obj KeyRelease evt)) = mode s"
  by (simp add: eventFilter_def after_def mode_def split: option.splits)

lemma release_clears:
  assumes "stack_registered s" and "mode s \<noteq> None"
  shows "evt \<notin> set (releaseevents_to_pass (after (eventFilter s QWindow KeyRelease evt)))"
proof -
  from assms(2) obtain m where m: "mode s = Some m" by auto
  with assms(1) obtain handler where "handlers s m = Some handler"
    using mode_registered by fastforce
  with m show ?thesis by (simp add: eventFilter_def after_def)
qed

lemma forwarded_press_recorded:
  assumes "mode s \<noteq> None" and "fst (eventFilter s QWindow KeyPress evt) = Inr False"
  shows "evt \<in> set (releaseevents_to_pass (after (eventFilter s QWindow KeyPress evt)))"
proof -
  from assms(1) obtain m where m: "mode s = Some m" by auto
  show ?thesis
  proof (cases "handlers s m")
    case None
    with m assms(2) show ?thesis by (simp add: eventFilter_def)
  next
    case (Some handler)
    obtain result sigs s1 where rh: "run_handler s handler evt = (result, sigs, s1)"
      by (cases "run_handler s handler evt") auto
    with assms(2) show ?thesis
      by (cases result) (auto simp add: eventFilter_press [OF m Some] after_def)
  qed
qed

text \<open>
  C2, as claimed, fails. A key is held while the mode changes: its first press is
  consumed in \<open>normal\<close>, its repeat is forwarded in \<open>insert\<close>, the next repeat is consumed
  in \<open>normal\<close>, and the release is forwarded although neither the first nor the latest
  press was.
\<close>

theorem release_after_consumed_presses:
  "decisions (fst (run (ModeManager_init False) held_key_ops)) =
     [(KeyPress, 7, True), (KeyPress, 7, False), (KeyPress, 7, True), (KeyRelease, 7, False)]"
  by (simp add: run_def held_key_ops_def ModeManager_init_def register_def enter_def leave_def
      after_def emitted_def mode_def eventFilter_def run_handler_def mode_in_passthrough_def
      handles_all_def handles_none_def decisions_def Let_def)

text \<open>
  C2, amended. Take a state reached from construction by calls and events, every event
  having arrived while a mode was active, and a mode active now. A release from the
  window is forwarded exactly when \<open>release_owed\<close> holds of the log: among the earlier
  dispatches from the window, the latest one that is a release of that event or a
  forwarded press of it is a forwarded press. A second release of the event right after
  is consumed, and a release right after a forwarded press of the event, with a mode
  still active, is forwarded.
\<close>

theorem release_forwarded_iff_owed:
  assumes "run (ModeManager_init cfg) ops = (log, s)" and "list_all d_active log"
    and "mode s \<noteq> None"
  shows "fst (eventFilter s QWindow KeyRelease evt) = Inr (\<not> release_owed evt log)
   \<and> fst (eventFilter (after (eventFilter s QWindow KeyRelease evt)) QWindow KeyRelease evt)
       = Inr True
   \<and> (fst (eventFilter s QWindow KeyPress evt) = Inr False
       \<and> mode (after (eventFilter s QWindow KeyPress evt)) \<noteq> None \<longrightarrow>
        fst (eventFilter (after (eventFilter s QWindow KeyPress evt)) QWindow KeyRelease evt)
        = Inr False)"
proof (intro conjI impI)
  from assms(1) have s: "s = snd (run (ModeManager_init cfg) ops)"
    and log: "log = fst (run (ModeManager_init cfg) ops)"
    by simp_all
  from s have reg: "stack_registered s"
    by (simp add: stack_registered_run stack_registered_init)
  from assms(2) have "(evt \<in> set (releaseevents_to_pass s)) = release_owed evt log"
    unfolding s log by (rule owed_run)
  with release_decision [OF reg assms(3)]
  show "fst (eventFilter s QWindow KeyRelease evt) = Inr (\<not> release_owed evt log)"
    by simp
  let ?released = "after (eventFilter s QWindow KeyRelease evt)"
  have "stack_registered ?released" and "mode ?released \<noteq> None"
    using reg assms(3) by (simp_all add: stack_registered_eventFilter release_keeps_mode)
  from release_decision [OF this] release_clears [OF reg assms(3)]
  show "fst (eventFilter ?released QWindow KeyRelease evt) = Inr True"
    by simp
next
  let ?pressed = "after (eventFilter s QWindow KeyPress evt)"
  assume press: "fst (eventFilter s QWindow KeyPress evt) = Inr False \<and> mode ?pressed \<noteq> None"
  from assms(1) have "stack_registered s"
    using stack_registered_run [OF stack_registered_init, of cfg ops] by simp
  then have "stack_registered ?pressed"
    by (rule stack_registered_eventFilter)
  moreover from press have "mode ?pressed \<noteq> None"
    by (rule conjunct2)
  ultimately have "fst (eventFilter ?pressed QWindow KeyRelease evt)
      = Inr (evt \<notin> set (releaseevents_to_pass ?pressed))"
    by (rule release_decision)
  moreover from press have "evt \<in> set (releaseevents_to_pass ?pressed)"
    using forwarded_press_recorded [OF assms(3)] by simp
  ultimately show "fst (eventFilter ?pressed QWindow KeyRelease evt) = Inr False"
    by simp
qed

theorem release_forwarded_iff_owed_witness:
  "list_all d_active (fst (run (ModeManager_init True) unbound_press_ops))
   \<and> mode (snd (run (ModeManager_init True) unbound_press_ops)) \<noteq> None
   \<and> decisions (fst (run (ModeManager_init True) unbound_press_ops)) = [(KeyPress, 7, False)]
   \<and> fst (eventFilter (snd (run (ModeManager_init True) unbound_press_ops)) QWindow KeyRelease 7)
       = Inr False
   \<and> fst (eventFilter (snd (run (ModeManager_init True) unbound_press_ops)) QWindow KeyRelease 8)
       = Inr True
   \<and> fst (eventFilter (snd (run (ModeManager_init True) unbound_press_ops)) QWindow KeyPress 8)
       = Inr False
   \<and> mode (after (eventFilter (snd (run (ModeManager_init True) unbound_press_ops))
        QWindow KeyPress 8)) \<noteq> None"
  using release_forwarded_iff_owed [of True unbound_press_ops
      "fst (run (ModeManager_init True) unbound_press_ops)"
      "snd (run (ModeManager_init True) unbound_press_ops)" 7]
    release_forwarded_iff_owed [of True unbound_press_ops
      "fst (run (ModeManager_init True) unbound_press_ops)"
      "snd (run (ModeManager_init True) unbound_press_ops)" 8]
  by (simp add: run_def unbound_press_ops_def ModeManager_init_def register_def enter_def
      after_def emitted_def mode_def eventFilter_def run_handler_def mode_in_passthrough_def
      handles_none_def decisions_def Let_def)

end
